theory Spec2Isabelle
  imports Complex_Main "HOL-Library.Multiset"
begin

section \<open>The VA combined rating engine\<close>

text \<open>
  The development embeds \<^verbatim>\<open>va_combined_rating_detailed\<close> of
  \<^verbatim>\<open>src/va_math_gui.py\<close> (lines 20 to 69), the only function of the repository
  that computes anything; the rest of the file is the Qt window around it.

  Numbers. The function converts every rating with \<^verbatim>\<open>float\<close> and computes with
  Python floats, which are IEEE 754 binary64 numbers. A finite float is modelled by the
  real number it denotes, and every arithmetic operation on floats by the exact
  operation followed by \<open>fl\<close>, the rounding to the nearest binary64 number with ties
  to the even significand. The infinities and NaN are not modelled: they are not real
  numbers, the filter of line 35 drops them, and no operation of the loop produces
  them from ratings between 0 and 100. The variable \<^verbatim>\<open>combined\<close> starts as
  \<^verbatim>\<open>0.0\<close> and afterwards only ever holds the result of \<^verbatim>\<open>round(x)\<close>, a
  Python \<^verbatim>\<open>int\<close>; it is modelled as an \<open>int\<close> and converted where the source
  mixes it with floats (the conversion is exact for the values it takes).
\<close>

subsection \<open>Rounding to the nearest integer, ties to even\<close>

definition round_half_even :: "real \<Rightarrow> int" where
  "round_half_even x =
     (let f = \<lfloor>x\<rfloor>; d = x - of_int f
      in if d < 1 / 2 then f
         else if 1 / 2 < d then f + 1
         else if even f then f else f + 1)"

subsection \<open>Binary64 rounding\<close>

text \<open>
  A binary64 number has a significand of 53 bits and an exponent between \<open>e_min\<close> and
  \<open>e_max\<close>. \<open>binade x\<close> is the exponent of the binade that holds \<open>\<bar>x\<bar>\<close>: the
  largest \<open>e\<close> with \<open>2 powi e \<le> \<bar>x\<bar>\<close>, kept between \<open>e_min\<close> (below it the numbers
  are subnormal and share the spacing of the lowest binade) and \<open>e_max\<close>. It is found
  by counting up from 0 or down from -1. \<open>ulp x\<close> is the spacing of the binary64
  numbers in that binade, and \<open>fl x\<close> the multiple of \<open>ulp x\<close> nearest to \<open>x\<close>, ties
  to the even multiple. A result beyond \<open>DBL_MAX\<close>, the largest finite binary64
  number, stands for an overflow.
\<close>

definition e_max :: int where
  "e_max = 1023"

definition e_min :: int where
  "e_min = - 1022"

fun binade_up :: "nat \<Rightarrow> int \<Rightarrow> real \<Rightarrow> int" where
  "binade_up 0 e x = e"
| "binade_up (Suc n) e x = (if x < 2 powi (e + 1) then e else binade_up n (e + 1) x)"

fun binade_down :: "nat \<Rightarrow> int \<Rightarrow> real \<Rightarrow> int" where
  "binade_down 0 e x = e"
| "binade_down (Suc n) e x = (if 2 powi e \<le> x then e else binade_down n (e - 1) x)"

definition binade :: "real \<Rightarrow> int" where
  "binade x =
     (if 1 \<le> \<bar>x\<bar> then binade_up (nat e_max) 0 \<bar>x\<bar>
      else binade_down (nat (- 1 - e_min)) (- 1) \<bar>x\<bar>)"

definition ulp :: "real \<Rightarrow> real" where
  "ulp x = 2 powi (binade x - 52)"

definition fl :: "real \<Rightarrow> real" where
  "fl x = sgn x * (of_int (round_half_even (\<bar>x\<bar> / ulp x)) * ulp x)"

definition DBL_MAX :: real where
  "DBL_MAX = (2 ^ 53 - 1) * 2 powi (e_max - 52)"

subsection \<open>Python's one-argument \<^verbatim>\<open>round\<close>\<close>

text \<open>
  \<^verbatim>\<open>round(x)\<close> of Python 3 on a float returns the integer nearest to the value of
  \<open>x\<close>; when \<open>x\<close> lies exactly half way between two integers it returns the even one.
  On an \<^verbatim>\<open>int\<close> it returns the integer itself, which the same definition gives.
\<close>

definition py_round :: "real \<Rightarrow> int" where
  "py_round x = round_half_even x"

subsection \<open>Python's \<^verbatim>\<open>float\<close> on numbers\<close>

text \<open>
  The signature declares \<^verbatim>\<open>ratings: List[float]\<close>, and on a float
  \<^verbatim>\<open>float(r)\<close> returns \<open>r\<close>. Python does not enforce the declaration: on an
  \<^verbatim>\<open>int\<close>, \<^verbatim>\<open>float(r)\<close> is the nearest binary64 number, and it raises
  \<^verbatim>\<open>OverflowError\<close> when that number would not be finite.
\<close>

datatype py_number = PyInt int | PyFloat real

datatype py_error = OverflowError

fun float_value :: "py_number \<Rightarrow> real" where
  "float_value (PyFloat d) = d"
| "float_value (PyInt n) = fl (of_int n)"

fun py_float :: "py_number \<Rightarrow> py_error + real" where
  "py_float (PyFloat d) = Inr d"
| "py_float (PyInt n) =
     (if DBL_MAX < \<bar>fl (of_int n)\<bar> then Inl OverflowError else Inr (fl (of_int n)))"

subsection \<open>The step records\<close>

text \<open>One dictionary appended to \<^verbatim>\<open>steps\<close> per loop iteration (lines 51 to 57).\<close>

record step =
  rating :: real
  remaining_before :: real
  added :: real
  combined_before_round :: real
  combined_after_round :: int

subsection \<open>Filtering and sorting (lines 34 to 37)\<close>

text \<open>
  On a list of floats, \<^verbatim>\<open>float(r)\<close> is \<open>r\<close>. \<^verbatim>\<open>sorted(..., reverse=True)\<close>
  is a stable sort into descending order: a stable sort on the negated value.
\<close>

definition clean_ratings :: "real list \<Rightarrow> real list" where
  "clean_ratings ratings = sort_key (\<lambda>r. - r) (filter (\<lambda>r. 0 < r \<and> r \<le> 100) ratings)"

subsection \<open>The loop (lines 41 to 57)\<close>

text \<open>
  The loop threads \<^verbatim>\<open>combined\<close> and the list \<^verbatim>\<open>steps\<close>, to which each
  iteration appends its record. Each of the four float operations of lines 45 to 48
  (the subtraction, the division, the multiplication, the addition) rounds its result.
\<close>

fun combine_loop :: "int \<Rightarrow> step list \<Rightarrow> real list \<Rightarrow> int \<times> step list" where
  "combine_loop combined steps [] = (combined, steps)"
| "combine_loop combined steps (r # rs) =
     (let remaining = fl (100 - of_int combined);
          added = fl (remaining * fl (r / 100));
          before_round_combined = fl (of_int combined + added);
          combined' = py_round before_round_combined
      in combine_loop combined'
           (steps @ [\<lparr> rating = r,
                       remaining_before = remaining,
                       added = added,
                       combined_before_round = before_round_combined,
                       combined_after_round = combined' \<rparr>])
           rs)"

subsection \<open>The function on a list of floats (lines 20 to 69)\<close>

definition va_combined_rating_detailed :: "real list \<Rightarrow> int \<times> step list" where
  "va_combined_rating_detailed ratings =
     (if ratings = [] then (0, [])
      else
        let clean = clean_ratings ratings
        in if clean = [] then (0, [])
           else
             let (combined, steps) = combine_loop 0 [] clean;
                 combined = min 100 (max 0 (py_round (of_int combined)));
                 remainder = combined mod 10;
                 final = (if remainder \<ge> 5 then combined + (10 - remainder)
                          else combined - remainder)
             in (final, steps))"

subsection \<open>The function on a list of ints and floats\<close>

text \<open>
  The same lines when the list may hold Python ints. The comprehension of line 35
  calls \<^verbatim>\<open>float(r)\<close> on every element for the test and once more on each element
  it keeps; the first call that raises ends the function with that error.
\<close>

fun kept_ratings :: "py_number list \<Rightarrow> py_error + real list" where
  "kept_ratings [] = Inr []"
| "kept_ratings (r # rs) =
     (case py_float r of
        Inl e \<Rightarrow> Inl e
      | Inr x \<Rightarrow>
          if 0 < x \<and> x \<le> 100
          then (case py_float r of
                  Inl e \<Rightarrow> Inl e
                | Inr y \<Rightarrow>
                    (case kept_ratings rs of
                       Inl e \<Rightarrow> Inl e
                     | Inr ys \<Rightarrow> Inr (y # ys)))
          else kept_ratings rs)"

definition va_combined_rating_detailed_num ::
  "py_number list \<Rightarrow> py_error + int \<times> step list" where
  "va_combined_rating_detailed_num ratings =
     (if ratings = [] then Inr (0, [])
      else
        case kept_ratings ratings of
          Inl e \<Rightarrow> Inl e
        | Inr kept \<Rightarrow>
            let clean = sort_key (\<lambda>r. - r) kept
            in if clean = [] then Inr (0, [])
               else
                 let (combined, steps) = combine_loop 0 [] clean;
                     combined = min 100 (max 0 (py_round (of_int combined)));
                     remainder = combined mod 10;
                     final = (if remainder \<ge> 5 then combined + (10 - remainder)
                              else combined - remainder)
                 in Inr (final, steps))"

subsection \<open>The contract as the specification words it\<close>

text \<open>
  Steps 6 and 7 of the specified algorithm, written from the specification's sentences:
  clamp the total to the closed interval from 0 to 100, then move it to a multiple of
  ten by its remainder. They are compared with the function above, not used by it.
\<close>

definition spec_clamp :: "int \<Rightarrow> int" where
  "spec_clamp c = (if c < 0 then 0 else if 100 < c then 100 else c)"

definition spec_round_to_ten :: "int \<Rightarrow> int" where
  "spec_round_to_ten c =
     (let remainder = c mod 10
      in if remainder \<ge> 5 then c + (10 - remainder) else c - remainder)"

text \<open>The domain check of the filter, as a predicate.\<close>

definition valid_rating :: "real \<Rightarrow> bool" where
  "valid_rating r = (0 < r \<and> r \<le> 100)"

subsection \<open>The loop without its accumulator\<close>

text \<open>
  For the proofs the loop is split into what one iteration computes
  (\<open>next_combined\<close>, \<open>step_of\<close>) and the two things the loop returns: the last total
  (\<open>total_from\<close>) and the records in order (\<open>trace_from\<close>). Lemma
  \<open>combine_loop_eq\<close> below shows that \<open>combine_loop\<close> computes exactly these.
\<close>

definition added_of :: "int \<Rightarrow> real \<Rightarrow> real" where
  "added_of c r = fl (fl (100 - of_int c) * fl (r / 100))"

definition before_round_of :: "int \<Rightarrow> real \<Rightarrow> real" where
  "before_round_of c r = fl (of_int c + added_of c r)"

definition next_combined :: "int \<Rightarrow> real \<Rightarrow> int" where
  "next_combined c r = py_round (before_round_of c r)"

definition step_of :: "int \<Rightarrow> real \<Rightarrow> step" where
  "step_of c r =
     \<lparr> rating = r,
       remaining_before = fl (100 - of_int c),
       added = added_of c r,
       combined_before_round = before_round_of c r,
       combined_after_round = next_combined c r \<rparr>"

fun trace_from :: "int \<Rightarrow> real list \<Rightarrow> step list" where
  "trace_from c [] = []"
| "trace_from c (r # rs) = step_of c r # trace_from (next_combined c r) rs"

fun total_from :: "int \<Rightarrow> real list \<Rightarrow> int" where
  "total_from c [] = c"
| "total_from c (r # rs) = total_from (next_combined c r) rs"

section \<open>Properties of the rounding to integers\<close>

lemma round_half_even_of_int: "round_half_even (of_int k) = k"
  by (simp add: round_half_even_def)

lemma round_half_even_lower: "of_int k \<le> x \<Longrightarrow> k \<le> round_half_even x"
proof -
  assume "of_int k \<le> x"
  then have "k \<le> \<lfloor>x\<rfloor>" by (simp add: le_floor_iff)
  moreover have "\<lfloor>x\<rfloor> \<le> round_half_even x" by (simp add: round_half_even_def Let_def)
  ultimately show ?thesis by linarith
qed

lemma round_half_even_upper: "x \<le> of_int k \<Longrightarrow> round_half_even x \<le> k"
proof -
  assume le: "x \<le> of_int k"
  show ?thesis
  proof (cases "x = of_int k")
    case True
    then show ?thesis by (simp add: round_half_even_of_int)
  next
    case False
    with le have "x < of_int k" by simp
    then have "\<lfloor>x\<rfloor> < k" by (simp add: floor_less_iff)
    moreover have "round_half_even x \<le> \<lfloor>x\<rfloor> + 1" by (simp add: round_half_even_def Let_def)
    ultimately show ?thesis by linarith
  qed
qed

lemma round_half_even_nearest: "\<bar>of_int (round_half_even x) - x\<bar> \<le> 1 / 2"
proof -
  have "of_int \<lfloor>x\<rfloor> \<le> x" "x < of_int \<lfloor>x\<rfloor> + 1" by linarith+
  then show ?thesis by (auto simp: round_half_even_def Let_def)
qed

lemma round_half_even_tie:
  assumes "frac x = 1 / 2"
  shows "even (round_half_even x)"
  using assms by (auto simp: round_half_even_def Let_def frac_def)

lemma round_half_even_below_half:
  assumes "x < of_int k + 1 / 2"
  shows "round_half_even x \<le> k"
proof -
  from round_half_even_nearest [of x] have "of_int (round_half_even x) \<le> x + 1 / 2"
    by linarith
  with assms have "of_int (round_half_even x) < (of_int (k + 1) :: real)" by simp
  then have "round_half_even x < k + 1" by (simp only: of_int_less_iff)
  then show ?thesis by simp
qed

lemma round_half_even_odd_half:
  assumes "of_int k + 1 / 2 \<le> x" and "odd k"
  shows "k + 1 \<le> round_half_even x"
proof (cases "of_int (k + 1) \<le> x")
  case True
  then show ?thesis by (rule round_half_even_lower)
next
  case False
  then have "x < of_int k + 1" by simp
  moreover from assms have "of_int k \<le> x" by linarith
  ultimately have f: "\<lfloor>x\<rfloor> = k" by linarith
  with assms show ?thesis by (simp add: round_half_even_def Let_def)
qed

section \<open>Properties of the binary64 rounding\<close>

lemma two_powi_mono: "a \<le> b \<Longrightarrow> (2::real) powi a \<le> 2 powi b"
  by (rule power_int_increasing) simp_all

lemma two_powi_less_imp:
  assumes "(2::real) powi a < 2 powi b"
  shows "a < b"
proof (rule ccontr)
  assume "\<not> a < b"
  then have "b \<le> a" by simp
  then have "(2::real) powi b \<le> 2 powi a" by (rule two_powi_mono)
  with assms show False by linarith
qed

lemma e_max_bounds: "0 \<le> e_max" "52 \<le> e_max" "6 \<le> e_max"
  by (simp_all add: e_max_def)

lemma binade_up_le:
  "e \<le> b \<Longrightarrow> x < 2 powi (b + 1) \<Longrightarrow> binade_up n e x \<le> b"
proof (induction n arbitrary: e)
  case 0
  then show ?case by simp
next
  case (Suc n)
  show ?case
  proof (cases "x < 2 powi (e + 1)")
    case True
    with Suc.prems show ?thesis by simp
  next
    case False
    with Suc.prems(2) have "(2::real) powi (e + 1) < 2 powi (b + 1)" by linarith
    then have "e + 1 < b + 1" by (rule two_powi_less_imp)
    then have "e + 1 \<le> b" by simp
    from Suc.IH [OF this Suc.prems(2)] False show ?thesis by simp
  qed
qed

lemma binade_up_bounded: "binade_up n e x \<le> e + int n"
proof (induction n arbitrary: e)
  case 0
  then show ?case by simp
next
  case (Suc n)
  from Suc.IH [of "e + 1"] show ?case by simp
qed

lemma binade_up_top:
  "2 powi (e + int n) \<le> x \<Longrightarrow> binade_up n e x = e + int n"
proof (induction n arbitrary: e)
  case 0
  then show ?case by simp
next
  case (Suc n)
  have "(2::real) powi (e + 1) \<le> 2 powi (e + int (Suc n))"
    by (rule two_powi_mono) simp
  with Suc.prems have nl: "\<not> x < 2 powi (e + 1)" by linarith
  have "e + 1 + int n = e + int (Suc n)" by simp
  with Suc.prems have "2 powi (e + 1 + int n) \<le> x" by (simp only:)
  from Suc.IH [OF this] nl show ?case by simp
qed

lemma binade_down_le: "binade_down n e x \<le> e"
proof (induction n arbitrary: e)
  case 0
  then show ?case by simp
next
  case (Suc n)
  from Suc.IH [of "e - 1"] show ?case by simp
qed

lemma binade_le:
  assumes "0 \<le> b" and "\<bar>x\<bar> < 2 powi (b + 1)"
  shows "binade x \<le> b"
proof (cases "1 \<le> \<bar>x\<bar>")
  case True
  with binade_up_le [OF assms(1) assms(2)] show ?thesis by (simp add: binade_def)
next
  case False
  with binade_down_le [of _ "- 1" "\<bar>x\<bar>"] assms(1) show ?thesis
    by (simp add: binade_def order_trans [where y = "- 1"])
qed

lemma binade_le_e_max: "binade x \<le> e_max"
proof (cases "1 \<le> \<bar>x\<bar>")
  case True
  with binade_up_bounded [of "nat e_max" 0 "\<bar>x\<bar>"] e_max_bounds(1) show ?thesis
    by (simp add: binade_def)
next
  case False
  with binade_down_le [of "nat (- 1 - e_min)" "- 1" "\<bar>x\<bar>"] e_max_bounds(1) show ?thesis
    by (simp add: binade_def)
qed

lemma binade_top:
  assumes "2 powi e_max \<le> \<bar>x\<bar>"
  shows "binade x = e_max"
proof -
  have "(1::real) \<le> 2 powi e_max" using e_max_bounds(1) by (intro one_le_power_int) simp_all
  with assms have one: "1 \<le> \<bar>x\<bar>" by linarith
  have "0 + int (nat e_max) = e_max" using e_max_bounds(1) by simp
  with assms have "2 powi (0 + int (nat e_max)) \<le> \<bar>x\<bar>" by (simp only:)
  then have "binade_up (nat e_max) 0 \<bar>x\<bar> = 0 + int (nat e_max)" by (rule binade_up_top)
  with one e_max_bounds(1) show ?thesis by (simp add: binade_def)
qed

lemma binade_abs: "binade \<bar>x\<bar> = binade x"
  by (simp add: binade_def)

lemma ulp_pos: "0 < ulp x"
  by (simp add: ulp_def)

lemma ulp_abs: "ulp \<bar>x\<bar> = ulp x"
  by (simp add: ulp_def binade_abs)

lemma grid_multiple_of_ulp:
  assumes "binade x - 52 \<le> j"
  shows "\<exists>m'. of_int m * 2 powi j = of_int m' * ulp x"
proof -
  let ?b = "binade x - 52"
  have "(2::real) powi j = 2 powi ((j - ?b) + ?b)" by simp
  also have "\<dots> = 2 powi (j - ?b) * 2 powi ?b" by (rule power_int_add) simp
  also have "(2::real) powi (j - ?b) = 2 ^ nat (j - ?b)"
    using assms by (simp add: power_int_nonneg_exp)
  finally have "of_int m * 2 powi j = of_int (m * 2 ^ nat (j - ?b)) * ulp x"
    by (simp add: ulp_def)
  then show ?thesis by blast
qed

lemma fl_zero: "fl 0 = 0"
  by (simp add: fl_def)

lemma fl_pos_eq: "0 < x \<Longrightarrow> fl x = of_int (round_half_even (x / ulp x)) * ulp x"
  by (simp add: fl_def)

lemma fl_le_grid:
  assumes "0 \<le> x" and "x \<le> of_int m * 2 powi j" and "binade x - 52 \<le> j"
  shows "fl x \<le> of_int m * 2 powi j"
proof (cases "x = 0")
  case True
  with assms(2) show ?thesis by (simp add: fl_zero)
next
  case False
  with assms(1) have pos: "0 < x" by simp
  from grid_multiple_of_ulp [OF assms(3)] obtain m'
    where m': "of_int m * 2 powi j = of_int m' * ulp x" by blast
  with assms(2) have "x \<le> of_int m' * ulp x" by simp
  then have "x / ulp x \<le> of_int m'" using ulp_pos [of x] by (simp add: pos_divide_le_eq)
  then have "round_half_even (x / ulp x) \<le> m'" by (rule round_half_even_upper)
  then have "of_int (round_half_even (x / ulp x)) * ulp x \<le> of_int m' * ulp x"
    using ulp_pos [of x] by simp
  then show ?thesis by (simp add: fl_pos_eq [OF pos] m')
qed

lemma fl_ge_grid:
  assumes "0 \<le> x" and "of_int m * 2 powi j \<le> x" and "binade x - 52 \<le> j"
  shows "of_int m * 2 powi j \<le> fl x"
proof (cases "x = 0")
  case True
  with assms(2) show ?thesis by (simp add: fl_zero)
next
  case False
  with assms(1) have pos: "0 < x" by simp
  from grid_multiple_of_ulp [OF assms(3)] obtain m'
    where m': "of_int m * 2 powi j = of_int m' * ulp x" by blast
  with assms(2) have "of_int m' * ulp x \<le> x" by simp
  then have "of_int m' \<le> x / ulp x" using ulp_pos [of x] by (simp add: pos_le_divide_eq)
  then have "m' \<le> round_half_even (x / ulp x)" by (rule round_half_even_lower)
  then have "of_int m' * ulp x \<le> of_int (round_half_even (x / ulp x)) * ulp x"
    using ulp_pos [of x] by simp
  then show ?thesis by (simp add: fl_pos_eq [OF pos] m')
qed

lemma binade_small: "0 \<le> x \<Longrightarrow> x \<le> 100 \<Longrightarrow> binade x - 52 \<le> 0"
  using binade_le [of 6 x] by simp

lemma fl_le_int:
  assumes "0 \<le> x" "x \<le> 100" "x \<le> of_int k"
  shows "fl x \<le> of_int k"
  using fl_le_grid [of x k 0] binade_small [of x] assms by simp

lemma fl_ge_int:
  assumes "0 \<le> x" "x \<le> 100" "of_int k \<le> x"
  shows "of_int k \<le> fl x"
  using fl_ge_grid [of x k 0] binade_small [of x] assms by simp

lemma fl_of_int:
  assumes "0 \<le> k" "k \<le> 100"
  shows "fl (of_int k) = of_int k"
proof -
  have "0 \<le> (of_int k :: real)" "(of_int k :: real) \<le> 100" using assms by simp_all
  from fl_le_int [OF this, of k] fl_ge_int [OF this, of k] show ?thesis by simp
qed

lemma abs_fl: "\<bar>fl x\<bar> = fl \<bar>x\<bar>"
proof (cases "x = 0")
  case True
  then show ?thesis by (simp add: fl_zero)
next
  case False
  have "0 \<le> \<bar>x\<bar> / ulp x" using ulp_pos [of x] by simp
  then have "of_int 0 \<le> \<bar>x\<bar> / ulp x" by simp
  then have "0 \<le> round_half_even (\<bar>x\<bar> / ulp x)" by (rule round_half_even_lower)
  then have "\<bar>of_int (round_half_even (\<bar>x\<bar> / ulp x)) :: real\<bar>
               = of_int (round_half_even (\<bar>x\<bar> / ulp x))"
    by simp
  moreover have "\<bar>ulp x\<bar> = ulp x" using ulp_pos [of x] by simp
  moreover have "\<bar>sgn x\<bar> = 1" "sgn \<bar>x\<bar> = 1" using False by (simp_all add: abs_sgn_eq)
  ultimately show ?thesis by (simp add: fl_def ulp_abs abs_mult)
qed

text \<open>
  \<open>binade\<close> finds the binade of a number in the normal range, and \<open>fl\<close> is within half
  a unit in the last place of its argument.
\<close>

lemma binade_up_correct:
  assumes "2 powi e \<le> x" and "x < 2 powi (e + int n + 1)"
  shows "2 powi (binade_up n e x) \<le> x \<and> x < 2 powi (binade_up n e x + 1)"
  using assms
proof (induction n arbitrary: e)
  case 0
  then show ?case by simp
next
  case (Suc n)
  show ?case
  proof (cases "x < 2 powi (e + 1)")
    case True
    with Suc.prems show ?thesis by simp
  next
    case False
    then have lo: "2 powi (e + 1) \<le> x" by simp
    have "e + 1 + int n + 1 = e + int (Suc n) + 1" by simp
    with Suc.prems(2) have hi: "x < 2 powi (e + 1 + int n + 1)" by (simp only:)
    from Suc.IH [OF lo hi] False show ?thesis by simp
  qed
qed

lemma binade_down_correct:
  assumes "x < 2 powi (e + 1)" and "2 powi (e - int n) \<le> x"
  shows "2 powi (binade_down n e x) \<le> x \<and> x < 2 powi (binade_down n e x + 1)"
  using assms
proof (induction n arbitrary: e)
  case 0
  then show ?case by simp
next
  case (Suc n)
  show ?case
  proof (cases "2 powi e \<le> x")
    case True
    with Suc.prems show ?thesis by simp
  next
    case False
    then have hi: "x < 2 powi (e - 1 + 1)" by simp
    have "e - 1 - int n = e - int (Suc n)" by simp
    with Suc.prems(2) have lo: "2 powi (e - 1 - int n) \<le> x" by (simp only:)
    from Suc.IH [OF hi lo] False show ?thesis by simp
  qed
qed

lemma binade_correct:
  assumes "2 powi e_min \<le> \<bar>x\<bar>" and "\<bar>x\<bar> < 2 powi (e_max + 1)"
  shows "2 powi (binade x) \<le> \<bar>x\<bar> \<and> \<bar>x\<bar> < 2 powi (binade x + 1)"
proof (cases "1 \<le> \<bar>x\<bar>")
  case True
  then have lo: "2 powi 0 \<le> \<bar>x\<bar>" by simp
  have "0 + int (nat e_max) + 1 = e_max + 1" using e_max_bounds(1) by simp
  with assms(2) have hi: "\<bar>x\<bar> < 2 powi (0 + int (nat e_max) + 1)" by (simp only:)
  from binade_up_correct [OF lo hi] True show ?thesis by (simp add: binade_def)
next
  case False
  then have hi: "\<bar>x\<bar> < 2 powi (- 1 + 1)" by simp
  have "- 1 - int (nat (- 1 - e_min)) = e_min" by (simp add: e_min_def)
  with assms(1) have lo: "2 powi (- 1 - int (nat (- 1 - e_min))) \<le> \<bar>x\<bar>" by (simp only:)
  from binade_down_correct [OF hi lo] False show ?thesis by (simp add: binade_def)
qed

lemma fl_nearest: "\<bar>fl x - x\<bar> \<le> ulp x / 2"
proof -
  let ?m = "of_int (round_half_even (\<bar>x\<bar> / ulp x)) :: real"
  have u: "0 < ulp x" by (rule ulp_pos)
  have "\<bar>?m - \<bar>x\<bar> / ulp x\<bar> \<le> 1 / 2" by (rule round_half_even_nearest)
  then have "\<bar>?m - \<bar>x\<bar> / ulp x\<bar> * ulp x \<le> 1 / 2 * ulp x"
    using u by (intro mult_right_mono) simp_all
  moreover have "\<bar>?m - \<bar>x\<bar> / ulp x\<bar> * ulp x = \<bar>?m * ulp x - \<bar>x\<bar>\<bar>"
  proof -
    have "\<bar>?m - \<bar>x\<bar> / ulp x\<bar> * ulp x = \<bar>(?m - \<bar>x\<bar> / ulp x) * ulp x\<bar>"
      using u by (simp add: abs_mult)
    also have "(?m - \<bar>x\<bar> / ulp x) * ulp x = ?m * ulp x - \<bar>x\<bar>"
      using u by (simp add: algebra_simps)
    finally show ?thesis .
  qed
  ultimately have near: "\<bar>?m * ulp x - \<bar>x\<bar>\<bar> \<le> ulp x / 2" by simp
  show ?thesis
  proof (cases "0 \<le> x")
    case True
    then show ?thesis using near by (cases "x = 0") (simp_all add: fl_def)
  next
    case False
    then have "fl x - x = - (?m * ulp x - \<bar>x\<bar>)" by (simp add: fl_def)
    then have "\<bar>fl x - x\<bar> = \<bar>?m * ulp x - \<bar>x\<bar>\<bar>" by (simp only: abs_minus_cancel)
    with near show ?thesis by (simp only:)
  qed
qed

lemma top_binade:
  fixes U :: real
  assumes U: "U = 2 powi (e_max - 52)"
  shows "0 < U" and "2 powi e_max = 2 ^ 52 * U"
proof -
  show "0 < U" by (simp add: U)
  have "(2::real) powi (52 + (e_max - 52)) = 2 powi 52 * 2 powi (e_max - 52)"
    by (rule power_int_add) simp
  then show "2 powi e_max = 2 ^ 52 * U" by (simp add: U)
qed

lemma fl_no_overflow:
  assumes "0 \<le> x" and "x < (2 ^ 53 - 1 / 2) * 2 powi (e_max - 52)"
  shows "fl x \<le> DBL_MAX"
proof (cases "x \<le> DBL_MAX")
  case True
  have "binade x - 52 \<le> e_max - 52" using binade_le_e_max [of x] by simp
  from fl_le_grid [OF assms(1) _ this, of "2 ^ 53 - 1"] True show ?thesis
    by (simp add: DBL_MAX_def)
next
  case False
  define U :: real where "U = 2 powi (e_max - 52)"
  note U = top_binade [OF U_def]
  from False have big: "(2 ^ 53 - 1) * U < x" by (simp add: DBL_MAX_def U_def)
  have "2 ^ 52 * U \<le> (2 ^ 53 - 1) * U" using U(1) by simp
  with big U(2) have x_top: "2 powi e_max \<le> x" by linarith
  with assms(1) have "2 powi e_max \<le> \<bar>x\<bar>" by simp
  then have "binade x = e_max" by (rule binade_top)
  then have u: "ulp x = U" by (simp add: ulp_def U_def)
  have pos: "0 < x" using x_top zero_less_power_int [of "2::real" e_max] by linarith
  have "x < (of_int (2 ^ 53 - 1) + 1 / 2) * U" using assms(2) by (simp add: U_def)
  then have "x / U < of_int (2 ^ 53 - 1) + 1 / 2" using U(1) by (simp add: pos_divide_less_eq)
  then have "round_half_even (x / U) \<le> 2 ^ 53 - 1" by (rule round_half_even_below_half)
  then have "(of_int (round_half_even (x / U)) :: real) \<le> of_int (2 ^ 53 - 1)"
    by (simp only: of_int_le_iff)
  then have "of_int (round_half_even (x / U)) * U \<le> (of_int (2 ^ 53 - 1) :: real) * U"
    using U(1) by (intro mult_right_mono) simp_all
  then show ?thesis by (simp add: fl_pos_eq [OF pos] u DBL_MAX_def U_def)
qed

lemma fl_overflow:
  assumes "(2 ^ 53 - 1 / 2) * 2 powi (e_max - 52) \<le> x"
  shows "DBL_MAX < fl x"
proof -
  define U :: real where "U = 2 powi (e_max - 52)"
  note U = top_binade [OF U_def]
  from assms have big: "(2 ^ 53 - 1 / 2) * U \<le> x" by (simp add: U_def)
  have "2 ^ 52 * U \<le> (2 ^ 53 - 1 / 2) * U" using U(1) by simp
  with big U(2) have x_top: "2 powi e_max \<le> x" by linarith
  have pos: "0 < x" using x_top zero_less_power_int [of "2::real" e_max] by linarith
  with x_top have "2 powi e_max \<le> \<bar>x\<bar>" by simp
  then have "binade x = e_max" by (rule binade_top)
  then have u: "ulp x = U" by (simp add: ulp_def U_def)
  from big have "of_int (2 ^ 53 - 1) + 1 / 2 \<le> x / U" using U(1) by (simp add: pos_le_divide_eq)
  moreover have "odd (2 ^ 53 - 1 :: int)" by simp
  ultimately have "(2 ^ 53 - 1) + 1 \<le> round_half_even (x / U)"
    by (rule round_half_even_odd_half)
  then have "2 ^ 53 \<le> round_half_even (x / U)" by simp
  then have "(of_int (2 ^ 53) :: real) \<le> of_int (round_half_even (x / U))"
    by (simp only: of_int_le_iff)
  then have "(of_int (2 ^ 53) :: real) * U \<le> of_int (round_half_even (x / U)) * U"
    using U(1) by (intro mult_right_mono) simp_all
  moreover have "(2 ^ 53 - 1) * U < (of_int (2 ^ 53) :: real) * U" using U(1) by simp
  ultimately show ?thesis by (simp add: fl_pos_eq [OF pos] u DBL_MAX_def U_def)
qed

lemma overflow_threshold: "(2 ^ 53 - 1 / 2) * 2 powi (e_max - 52) = (2 ^ 1024 - 2 ^ 970 :: real)"
  by (simp add: e_max_def)

lemma py_float_PyInt:
  "py_float (PyInt n) =
     (if \<bar>n\<bar> < 2 ^ 1024 - 2 ^ 970 then Inr (fl (of_int n)) else Inl OverflowError)"
proof -
  have "(of_int \<bar>n\<bar> < (of_int (2 ^ 1024 - 2 ^ 970) :: real)) = (\<bar>n\<bar> < 2 ^ 1024 - 2 ^ 970)"
    by (rule of_int_less_iff)
  moreover have "(of_int (2 ^ 1024 - 2 ^ 970) :: real) = 2 ^ 1024 - 2 ^ 970" by simp
  moreover have "(of_int \<bar>n\<bar> :: real) = \<bar>of_int n\<bar>" by simp
  ultimately have iff: "(\<bar>n\<bar> < 2 ^ 1024 - 2 ^ 970)
      = (\<bar>of_int n :: real\<bar> < (2 ^ 53 - 1 / 2) * 2 powi (e_max - 52))"
    by (simp only: overflow_threshold)
  show ?thesis
  proof (cases "\<bar>n\<bar> < 2 ^ 1024 - 2 ^ 970")
    case True
    with iff have "\<bar>of_int n :: real\<bar> < (2 ^ 53 - 1 / 2) * 2 powi (e_max - 52)"
      by (simp only:)
    from fl_no_overflow [OF _ this] have "\<not> DBL_MAX < \<bar>fl (of_int n)\<bar>"
      by (simp add: abs_fl)
    with True show ?thesis by (simp only: py_float.simps if_False if_True)
  next
    case False
    with iff have "\<not> \<bar>of_int n :: real\<bar> < (2 ^ 53 - 1 / 2) * 2 powi (e_max - 52)"
      by blast
    then have "(2 ^ 53 - 1 / 2) * 2 powi (e_max - 52) \<le> \<bar>of_int n :: real\<bar>"
      by (rule leI)
    from fl_overflow [OF this] have "DBL_MAX < \<bar>fl (of_int n)\<bar>"
      by (simp add: abs_fl)
    with False show ?thesis by (simp only: py_float.simps if_False if_True)
  qed
qed

lemma py_float_ok:
  "(case v of PyFloat d \<Rightarrow> True | PyInt n \<Rightarrow> \<bar>n\<bar> < 2 ^ 1024 - 2 ^ 970)
     \<Longrightarrow> py_float v = Inr (float_value v)"
  by (cases v) (simp_all only: py_float_PyInt py_number.case py_float.simps
      float_value.simps if_True)

lemma py_float_overflow:
  "(case v of PyFloat d \<Rightarrow> False | PyInt n \<Rightarrow> 2 ^ 1024 - 2 ^ 970 \<le> \<bar>n\<bar>)
     \<Longrightarrow> py_float v = Inl OverflowError"
  by (cases v) (simp_all only: py_float_PyInt py_number.case not_less [symmetric] if_False)

section \<open>Properties of Python's round\<close>

lemma py_round_of_int: "py_round (of_int k) = k"
  by (simp add: py_round_def round_half_even_of_int)

lemma py_round_lower: "of_int k \<le> x \<Longrightarrow> k \<le> py_round x"
  unfolding py_round_def by (rule round_half_even_lower)

lemma py_round_upper: "x \<le> of_int k \<Longrightarrow> py_round x \<le> k"
  unfolding py_round_def by (rule round_half_even_upper)

section \<open>Properties of the loop\<close>

lemma combine_loop_eq:
  "combine_loop c acc rs = (total_from c rs, acc @ trace_from c rs)"
  by (induction rs arbitrary: c acc)
    (simp_all add: Let_def step_of_def next_combined_def before_round_of_def added_of_def)

lemma length_trace_from: "length (trace_from c rs) = length rs"
  by (induction rs arbitrary: c) simp_all

lemma map_rating_trace_from: "map rating (trace_from c rs) = rs"
  by (induction rs arbitrary: c) (simp_all add: step_of_def)

text \<open>
  One iteration from a total between 0 and 100 and a rating in (0, 100]: the
  subtraction is exact, and rounding keeps every later value between the integers that
  bound its exact value.
\<close>

lemma remaining_exact:
  assumes "0 \<le> c" "c \<le> 100"
  shows "fl (100 - of_int c) = 100 - of_int c"
proof -
  from assms have "fl (of_int (100 - c)) = of_int (100 - c)"
    by (intro fl_of_int) simp_all
  then show ?thesis by simp
qed

lemma ratio_bounds:
  assumes "valid_rating r"
  shows "0 \<le> fl (r / 100)" and "fl (r / 100) \<le> 1"
proof -
  from assms have r: "0 \<le> r / 100" "r / 100 \<le> 100" "r / 100 \<le> 1"
    by (simp_all add: valid_rating_def)
  from fl_ge_int [OF r(1,2), of 0] r(1) show "0 \<le> fl (r / 100)" by simp
  from fl_le_int [OF r(1,2), of 1] r(3) show "fl (r / 100) \<le> 1" by simp
qed

lemma added_bounds:
  assumes "0 \<le> c" "c \<le> 100" "valid_rating r"
  shows "0 \<le> added_of c r" and "added_of c r \<le> 100 - of_int c"
proof -
  let ?rem = "100 - of_int c :: real"
  let ?q = "fl (r / 100)"
  note q = ratio_bounds [OF assms(3)]
  have rem: "0 \<le> ?rem" "?rem \<le> 100" using assms by simp_all
  have p0: "0 \<le> ?rem * ?q" using rem(1) q(1) by simp
  have "?rem * ?q \<le> ?rem * 1" using q(2) rem(1) by (rule mult_left_mono)
  then have p1: "?rem * ?q \<le> of_int (100 - c)" by simp
  then have p2: "?rem * ?q \<le> 100" using rem(2) by simp
  have a: "added_of c r = fl (?rem * ?q)"
    by (simp add: added_of_def remaining_exact [OF assms(1,2)])
  from fl_ge_int [OF p0 p2, of 0] p0 show "0 \<le> added_of c r" by (simp add: a)
  from fl_le_int [OF p0 p2 p1] show "added_of c r \<le> 100 - of_int c" by (simp add: a)
qed

lemma before_round_bounds:
  assumes "0 \<le> c" "c \<le> 100" "valid_rating r"
  shows "of_int c \<le> before_round_of c r" and "before_round_of c r \<le> 100"
proof -
  note a = added_bounds [OF assms]
  let ?x = "of_int c + added_of c r"
  have x: "0 \<le> ?x" "?x \<le> 100" "of_int c \<le> ?x" "?x \<le> of_int 100"
    using a assms by simp_all
  from fl_ge_int [OF x(1,2,3)] show "of_int c \<le> before_round_of c r"
    by (simp add: before_round_of_def)
  from fl_le_int [OF x(1,2,4)] show "before_round_of c r \<le> 100"
    by (simp add: before_round_of_def)
qed

lemma next_combined_bounds:
  assumes "0 \<le> c" "c \<le> 100" "valid_rating r"
  shows "c \<le> next_combined c r" and "next_combined c r \<le> 100"
proof -
  note b = before_round_bounds [OF assms]
  from b(1) show "c \<le> next_combined c r"
    unfolding next_combined_def by (rule py_round_lower)
  from b(2) have "before_round_of c r \<le> of_int 100" by simp
  then show "next_combined c r \<le> 100"
    unfolding next_combined_def by (rule py_round_upper)
qed

lemma trace_from_bounds:
  assumes "0 \<le> c" "c \<le> 100" "\<forall>r \<in> set rs. valid_rating r"
    and "s \<in> set (trace_from c rs)"
  shows "c \<le> combined_after_round s \<and> combined_after_round s \<le> 100
         \<and> remaining_before s \<le> 100 - of_int c"
  using assms
proof (induction rs arbitrary: c)
  case Nil
  then show ?case by simp
next
  case (Cons r rs)
  then have v: "valid_rating r" and vs: "\<forall>r \<in> set rs. valid_rating r" by simp_all
  note nb = next_combined_bounds [OF Cons.prems(1,2) v]
  from Cons.prems(4)
  consider "s = step_of c r" | "s \<in> set (trace_from (next_combined c r) rs)"
    by auto
  then show ?case
  proof cases
    case 1
    then show ?thesis using nb remaining_exact [OF Cons.prems(1,2)] by (simp add: step_of_def)
  next
    case 2
    have "0 \<le> next_combined c r" using nb Cons.prems(1) by linarith
    from Cons.IH [OF this nb(2) vs 2] nb(1) show ?thesis by simp
  qed
qed

lemma total_from_bounds:
  assumes "0 \<le> c" "c \<le> 100" "\<forall>r \<in> set rs. valid_rating r"
  shows "c \<le> total_from c rs \<and> total_from c rs \<le> 100"
  using assms
proof (induction rs arbitrary: c)
  case Nil
  then show ?case by simp
next
  case (Cons r rs)
  then have v: "valid_rating r" and vs: "\<forall>r \<in> set rs. valid_rating r" by simp_all
  note nb = next_combined_bounds [OF Cons.prems(1,2) v]
  have "0 \<le> next_combined c r" using nb Cons.prems(1) by linarith
  from Cons.IH [OF this nb(2) vs] nb(1) show ?case by simp
qed

lemma sorted_after_round_trace_from:
  assumes "0 \<le> c" "c \<le> 100" "\<forall>r \<in> set rs. valid_rating r"
  shows "sorted (map combined_after_round (trace_from c rs))"
  using assms
proof (induction rs arbitrary: c)
  case Nil
  then show ?case by simp
next
  case (Cons r rs)
  then have v: "valid_rating r" and vs: "\<forall>r \<in> set rs. valid_rating r" by simp_all
  note nb = next_combined_bounds [OF Cons.prems(1,2) v]
  have n0: "0 \<le> next_combined c r" using nb Cons.prems(1) by linarith
  have "\<forall>s \<in> set (trace_from (next_combined c r) rs).
          next_combined c r \<le> combined_after_round s"
    using trace_from_bounds [OF n0 nb(2) vs] by blast
  moreover have "sorted (map combined_after_round (trace_from (next_combined c r) rs))"
    by (rule Cons.IH [OF n0 nb(2) vs])
  ultimately show ?case by (simp add: step_of_def)
qed

lemma sorted_remaining_trace_from:
  assumes "0 \<le> c" "c \<le> 100" "\<forall>r \<in> set rs. valid_rating r"
  shows "sorted_wrt (\<ge>) (map remaining_before (trace_from c rs))"
  using assms
proof (induction rs arbitrary: c)
  case Nil
  then show ?case by simp
next
  case (Cons r rs)
  then have v: "valid_rating r" and vs: "\<forall>r \<in> set rs. valid_rating r" by simp_all
  note nb = next_combined_bounds [OF Cons.prems(1,2) v]
  have n0: "0 \<le> next_combined c r" using nb Cons.prems(1) by linarith
  have "\<forall>s \<in> set (trace_from (next_combined c r) rs).
          remaining_before s \<le> 100 - of_int c"
  proof
    fix s assume "s \<in> set (trace_from (next_combined c r) rs)"
    from trace_from_bounds [OF n0 nb(2) vs this] nb(1) show "remaining_before s \<le> 100 - of_int c"
      by simp
  qed
  moreover have "sorted_wrt (\<ge>) (map remaining_before (trace_from (next_combined c r) rs))"
    by (rule Cons.IH [OF n0 nb(2) vs])
  ultimately show ?case
    by (simp add: step_of_def remaining_exact [OF Cons.prems(1,2)])
qed

lemma trace_from_first:
  assumes "0 \<le> c" "c \<le> 100" "rs \<noteq> []"
  shows "remaining_before (hd (trace_from c rs)) = 100 - of_int c"
  using assms(3) remaining_exact [OF assms(1,2)] by (cases rs) (simp_all add: step_of_def)

lemma trace_from_chain:
  assumes "0 \<le> c" "c \<le> 100" "\<forall>r \<in> set rs. valid_rating r" "Suc i < length rs"
  shows "remaining_before (trace_from c rs ! Suc i) =
           100 - of_int (combined_after_round (trace_from c rs ! i))"
  using assms
proof (induction rs arbitrary: c i)
  case Nil
  then show ?case by simp
next
  case (Cons r rs)
  then have v: "valid_rating r" and vs: "\<forall>r \<in> set rs. valid_rating r" by simp_all
  note nb = next_combined_bounds [OF Cons.prems(1,2) v]
  have n0: "0 \<le> next_combined c r" using nb Cons.prems(1) by linarith
  show ?case
  proof (cases i)
    case 0
    with Cons.prems(4) obtain r' rs' where "rs = r' # rs'" by (cases rs) auto
    with 0 remaining_exact [OF n0 nb(2)] show ?thesis by (simp add: step_of_def)
  next
    case (Suc j)
    with Cons.prems(4) have "Suc j < length rs" by simp
    from Cons.IH [OF n0 nb(2) vs this] Suc show ?thesis by simp
  qed
qed







section \<open>Properties of the filter and the sort\<close>

lemma set_clean_ratings: "set (clean_ratings rs) = {r \<in> set rs. valid_rating r}"
  by (auto simp: clean_ratings_def valid_rating_def)

lemma valid_clean_ratings: "\<forall>r \<in> set (clean_ratings rs). valid_rating r"
  by (simp add: set_clean_ratings)

lemma mset_clean_ratings:
  "mset (clean_ratings rs) = filter_mset (\<lambda>r. 0 < r \<and> r \<le> 100) (mset rs)"
  by (simp add: clean_ratings_def)

lemma sorted_clean_ratings: "sorted_wrt (\<ge>) (clean_ratings rs)"
proof -
  have "sorted (map (\<lambda>r. - r) (clean_ratings rs))"
    unfolding clean_ratings_def by (rule sorted_sort_key)
  then show ?thesis by (simp add: sorted_wrt_map)
qed

lemma clean_ratings_perm:
  assumes "mset rs = mset rs'"
  shows "clean_ratings rs = clean_ratings rs'"
proof -
  let ?P = "\<lambda>r::real. 0 < r \<and> r \<le> 100"
  let ?f = "\<lambda>r::real. - r"
  have "mset (filter ?P rs) = mset (sort_key ?f (filter ?P rs'))"
    using assms by simp
  moreover have "inj_on ?f (set (filter ?P rs))"
    by (rule inj_onI) simp
  moreover have "sorted (map ?f (sort_key ?f (filter ?P rs')))"
    by (rule sorted_sort_key)
  ultimately have "sort_key ?f (filter ?P rs) = sort_key ?f (filter ?P rs')"
    by (rule sort_key_inj_key_eq)
  then show ?thesis by (simp add: clean_ratings_def)
qed

lemma clean_ratings_filter:
  "clean_ratings (filter (\<lambda>r. 0 < r \<and> r \<le> 100) rs) = clean_ratings rs"
  by (simp add: clean_ratings_def)


section \<open>The function in terms of the loop's results\<close>

lemma va_unfold:
  "va_combined_rating_detailed rs =
     (spec_round_to_ten (spec_clamp (total_from 0 (clean_ratings rs))),
      trace_from 0 (clean_ratings rs))"
proof (cases "clean_ratings rs = []")
  case True
  then show ?thesis
    by (simp add: va_combined_rating_detailed_def spec_clamp_def spec_round_to_ten_def)
next
  case False
  then have "rs \<noteq> []" by (auto simp: clean_ratings_def)
  moreover have "min 100 (max 0 c) = spec_clamp c" for c :: int
    by (simp add: spec_clamp_def)
  ultimately show ?thesis
    using False
    by (simp add: va_combined_rating_detailed_def combine_loop_eq py_round_of_int
        spec_round_to_ten_def Let_def)
qed

lemma spec_round_to_ten_range:
  assumes "0 \<le> c" "c \<le> 100"
  shows "spec_round_to_ten c mod 10 = 0 \<and> 0 \<le> spec_round_to_ten c
         \<and> spec_round_to_ten c \<le> 100 \<and> \<bar>spec_round_to_ten c - c\<bar> \<le> 5"
  using assms unfolding spec_round_to_ten_def Let_def by presburger

lemma spec_clamp_range: "0 \<le> spec_clamp c \<and> spec_clamp c \<le> 100"
  by (simp add: spec_clamp_def)

section \<open>The function on ints and floats in terms of the function on floats\<close>

lemma kept_ratings_ok:
  assumes "\<forall>v \<in> set rs. py_float v = Inr (float_value v)"
  shows "kept_ratings rs = Inr (filter (\<lambda>r. 0 < r \<and> r \<le> 100) (map float_value rs))"
  using assms by (induction rs) simp_all

lemma kept_ratings_error:
  assumes "\<exists>v \<in> set rs. py_float v = Inl OverflowError"
  shows "kept_ratings rs = Inl OverflowError"
  using assms
proof (induction rs)
  case Nil
  then show ?case by simp
next
  case (Cons r rs)
  show ?case
  proof (cases "py_float r")
    case (Inl e)
    then show ?thesis by (cases e) simp
  next
    case (Inr x)
    with Cons.prems have "\<exists>v \<in> set rs. py_float v = Inl OverflowError" by auto
    from Cons.IH [OF this] Inr show ?thesis by simp
  qed
qed

lemma va_num_ok:
  assumes "\<forall>v \<in> set rs. py_float v = Inr (float_value v)"
  shows "va_combined_rating_detailed_num rs =
           Inr (va_combined_rating_detailed (map float_value rs))"
proof (cases "rs = []")
  case True
  then show ?thesis
    by (simp add: va_combined_rating_detailed_num_def va_combined_rating_detailed_def)
next
  case False
  then show ?thesis
    by (simp add: va_combined_rating_detailed_num_def va_combined_rating_detailed_def
        kept_ratings_ok [OF assms] clean_ratings_def Let_def split: prod.splits)
qed

lemma va_num_error:
  assumes "\<exists>v \<in> set rs. py_float v = Inl OverflowError"
  shows "va_combined_rating_detailed_num rs = Inl OverflowError"
proof -
  from assms have "rs \<noteq> []" by auto
  then show ?thesis
    by (simp add: va_combined_rating_detailed_num_def kept_ratings_error [OF assms])
qed

section \<open>Runs of the function\<close>

lemma run_50_30_10:
  "va_combined_rating_detailed [50, 30, 10] =
     (70,
      [\<lparr> rating = 50, remaining_before = 100, added = 50,
          combined_before_round = 50, combined_after_round = 50 \<rparr>,
       \<lparr> rating = 30, remaining_before = 50, added = 15,
          combined_before_round = 65, combined_after_round = 65 \<rparr>,
       \<lparr> rating = 10, remaining_before = 35, added = 7 / 2,
          combined_before_round = 137 / 2, combined_after_round = 68 \<rparr>])"
  by code_simp

lemma run_50_50_30_10:
  "va_combined_rating_detailed [50, 50, 30, 10] =
     (80,
      [\<lparr> rating = 50, remaining_before = 100, added = 50,
          combined_before_round = 50, combined_after_round = 50 \<rparr>,
       \<lparr> rating = 50, remaining_before = 50, added = 25,
          combined_before_round = 75, combined_after_round = 75 \<rparr>,
       \<lparr> rating = 30, remaining_before = 25, added = 15 / 2,
          combined_before_round = 165 / 2, combined_after_round = 82 \<rparr>,
       \<lparr> rating = 10, remaining_before = 18,
          added = 8106479329266893 / 4503599627370496,
          combined_before_round = 5896900762088243 / 70368744177664,
          combined_after_round = 84 \<rparr>])"
  by code_simp

text \<open>
  Two runs on which the rounding of the float operations shows: \<open>54.5 / 100.0\<close> and
  \<open>57.5 / 100.0\<close> are not binary64 numbers, and \<open>100.0\<close> times the rounded quotient is
  a little more than 54.5 in the first case and a little less than 57.5 in the second.
\<close>

lemma run_54_5:
  "va_combined_rating_detailed [109 / 2] =
     (60,
      [\<lparr> rating = 109 / 2, remaining_before = 100,
          added = 109 / 2 + 1 / 2 ^ 47,
          combined_before_round = 109 / 2 + 1 / 2 ^ 47,
          combined_after_round = 55 \<rparr>])"
  by code_simp

lemma run_57_5_16:
  "map combined_after_round (snd (va_combined_rating_detailed [115 / 2, 16])) = [57, 64]
   \<and> map remaining_before (snd (va_combined_rating_detailed [115 / 2, 16])) = [100, 43]
   \<and> fst (va_combined_rating_detailed [115 / 2, 16]) = 60"
  by code_simp

section \<open>The claims\<close>

text \<open>
  C1. The claim asks for round-half-up in the per-step rounding. The code calls
  Python's \<^verbatim>\<open>round\<close>, which sends a tie to the even integer: for the ratings
  50, 30, 10 the third step has \<open>combined_before_round\<close> 68.5, whose fractional part
  is exactly one half, and \<open>combined_after_round\<close> 68, not 69; the final rating is 70.
  For the ratings 50, 50, 30, 10 the third step rounds 82.5 to 82 and the final rating
  is 80.
\<close>

theorem per_step_round_sends_tie_to_even:
  "combined_before_round (snd (va_combined_rating_detailed [50, 30, 10]) ! 2) = 137 / 2
   \<and> frac (137 / 2 :: real) = 1 / 2
   \<and> combined_after_round (snd (va_combined_rating_detailed [50, 30, 10]) ! 2) = 68
   \<and> combined_after_round (snd (va_combined_rating_detailed [50, 30, 10]) ! 2) \<noteq> 69
   \<and> fst (va_combined_rating_detailed [50, 30, 10]) = 70
   \<and> combined_before_round (snd (va_combined_rating_detailed [50, 50, 30, 10]) ! 2) = 165 / 2
   \<and> combined_after_round (snd (va_combined_rating_detailed [50, 50, 30, 10]) ! 2) = 82
   \<and> fst (va_combined_rating_detailed [50, 50, 30, 10]) = 80"
  by (simp add: run_50_30_10 run_50_50_30_10 frac_def)

text \<open>
  C2. For every input list the final rating is a multiple of ten between 0 and 100.
\<close>

theorem final_rating_multiple_of_ten_in_range:
  "fst (va_combined_rating_detailed rs) mod 10 = 0
   \<and> 0 \<le> fst (va_combined_rating_detailed rs)
   \<and> fst (va_combined_rating_detailed rs) \<le> 100"
proof -
  have "0 \<le> spec_clamp (total_from 0 (clean_ratings rs))"
    and "spec_clamp (total_from 0 (clean_ratings rs)) \<le> 100"
    using spec_clamp_range by simp_all
  from spec_round_to_ten_range [OF this] show ?thesis
    by (simp add: va_unfold)
qed

text \<open>
  C3. The final rating is obtained from the total the loop leaves by clamping it to
  the interval from 0 to 100 and then applying the remainder rule: with
  \<open>remainder = combined mod 10\<close>, five or more goes up to the next multiple of ten,
  less goes down. The result is a multiple of ten at distance at most 5 from the
  clamped total, and the steps returned are the loop's.
\<close>

theorem final_rating_clamp_then_round_to_ten:
  "fst (va_combined_rating_detailed rs) =
     spec_round_to_ten (spec_clamp (fst (combine_loop 0 [] (clean_ratings rs))))
   \<and> snd (va_combined_rating_detailed rs) = snd (combine_loop 0 [] (clean_ratings rs))
   \<and> fst (va_combined_rating_detailed rs) mod 10 = 0
   \<and> \<bar>fst (va_combined_rating_detailed rs)
        - spec_clamp (fst (combine_loop 0 [] (clean_ratings rs)))\<bar> \<le> 5"
proof -
  have "0 \<le> spec_clamp (total_from 0 (clean_ratings rs))"
    and "spec_clamp (total_from 0 (clean_ratings rs)) \<le> 100"
    using spec_clamp_range by simp_all
  from spec_round_to_ten_range [OF this] show ?thesis
    by (simp add: va_unfold combine_loop_eq)
qed



text \<open>
  C5. In every returned trace the first step's \<open>remaining_before\<close> is 100, and every
  later step's \<open>remaining_before\<close> is 100 minus the \<open>combined_after_round\<close> of the
  step before it.
\<close>

theorem remaining_before_chain:
  "(snd (va_combined_rating_detailed rs) \<noteq> [] \<longrightarrow>
      remaining_before (hd (snd (va_combined_rating_detailed rs))) = 100)
   \<and> (\<forall>i. Suc i < length (snd (va_combined_rating_detailed rs)) \<longrightarrow>
        remaining_before (snd (va_combined_rating_detailed rs) ! Suc i) =
          100 - of_int (combined_after_round (snd (va_combined_rating_detailed rs) ! i)))"
proof (intro conjI allI impI)
  assume "snd (va_combined_rating_detailed rs) \<noteq> []"
  then have "clean_ratings rs \<noteq> []" by (auto simp: va_unfold)
  from trace_from_first [OF _ _ this, of 0]
  show "remaining_before (hd (snd (va_combined_rating_detailed rs))) = 100"
    by (simp add: va_unfold)
next
  fix i assume "Suc i < length (snd (va_combined_rating_detailed rs))"
  then have "Suc i < length (clean_ratings rs)"
    by (simp add: va_unfold length_trace_from)
  from trace_from_chain [OF _ _ valid_clean_ratings this, of 0]
  show "remaining_before (snd (va_combined_rating_detailed rs) ! Suc i) =
          100 - of_int (combined_after_round (snd (va_combined_rating_detailed rs) ! i))"
    by (simp add: va_unfold)
qed

theorem remaining_before_chain_witness:
  "snd (va_combined_rating_detailed [50, 30, 10]) \<noteq> []
   \<and> Suc 1 < length (snd (va_combined_rating_detailed [50, 30, 10]))
   \<and> remaining_before (hd (snd (va_combined_rating_detailed [50, 30, 10]))) = 100
   \<and> remaining_before (snd (va_combined_rating_detailed [50, 30, 10]) ! Suc 1) = 35
   \<and> combined_after_round (snd (va_combined_rating_detailed [50, 30, 10]) ! 1) = 65"
proof -
  have ne: "snd (va_combined_rating_detailed [50, 30, 10]) \<noteq> []"
    by (simp add: va_unfold clean_ratings_def)
  have len: "Suc 1 < length (snd (va_combined_rating_detailed [50, 30, 10]))"
    by (simp add: va_unfold length_trace_from clean_ratings_def)
  have car: "combined_after_round (snd (va_combined_rating_detailed [50, 30, 10]) ! 1) = 65"
    by (simp add: run_50_30_10)
  from remaining_before_chain [of "[50, 30, 10]"] ne len
  have "remaining_before (hd (snd (va_combined_rating_detailed [50, 30, 10]))) = 100"
    and "remaining_before (snd (va_combined_rating_detailed [50, 30, 10]) ! Suc 1) =
          100 - of_int (combined_after_round (snd (va_combined_rating_detailed [50, 30, 10]) ! 1))"
    by blast+
  with ne len car show ?thesis by simp
qed

text \<open>
  C6. The function is invariant under permutation of its input: two lists with the
  same elements, each as often, give the same final rating and the same ordered steps,
  whose ratings are in descending order; so the lists 10, 50, 30 and 50, 30, 10 give
  the same result.
\<close>

theorem permutation_invariant:
  "(mset rs = mset rs' \<longrightarrow>
      va_combined_rating_detailed rs = va_combined_rating_detailed rs')
   \<and> sorted_wrt (\<ge>) (map rating (snd (va_combined_rating_detailed rs)))
   \<and> va_combined_rating_detailed [10, 50, 30] = va_combined_rating_detailed [50, 30, 10]"
proof (intro conjI impI)
  assume "mset rs = mset rs'"
  then have "clean_ratings rs = clean_ratings rs'" by (rule clean_ratings_perm)
  then show "va_combined_rating_detailed rs = va_combined_rating_detailed rs'"
    by (simp add: va_unfold)
next
  show "sorted_wrt (\<ge>) (map rating (snd (va_combined_rating_detailed rs)))"
    by (simp add: va_unfold map_rating_trace_from sorted_clean_ratings)
next
  have "mset [10, 50, 30 :: real] = mset [50, 30, 10]" by simp
  then have "clean_ratings [10, 50, 30] = clean_ratings [50, 30, 10]"
    by (rule clean_ratings_perm)
  then show "va_combined_rating_detailed [10, 50, 30] = va_combined_rating_detailed [50, 30, 10]"
    by (simp only: va_unfold)
qed

theorem permutation_invariant_witness:
  "mset [30, 10, 50 :: real] = mset [10, 50, 30]
   \<and> va_combined_rating_detailed [30, 10, 50] = va_combined_rating_detailed [10, 50, 30]
   \<and> fst (va_combined_rating_detailed [30, 10, 50]) = 70"
proof -
  have h: "mset [30, 10, 50 :: real] = mset [10, 50, 30]" by simp
  from permutation_invariant [of "[30, 10, 50]" "[10, 50, 30]"] h
  have e: "va_combined_rating_detailed [30, 10, 50] = va_combined_rating_detailed [10, 50, 30]"
    and e': "va_combined_rating_detailed [10, 50, 30] = va_combined_rating_detailed [50, 30, 10]"
    by blast+
  from e e' have "fst (va_combined_rating_detailed [30, 10, 50]) = 70"
    by (simp only: run_50_30_10 fst_conv)
  with h e show ?thesis by blast
qed

text \<open>
  C7 (as the code has it). On a list of floats, and of ints whose magnitude is below
  \<open>2 ^ 1024 - 2 ^ 970\<close> (the ints that \<^verbatim>\<open>float\<close> converts), the function raises
  no error: it returns a final rating and steps; the ratings of the steps are exactly
  the float values \<open>r\<close> with \<open>0 < r \<le> 100\<close> of the input, each as often as it occurs
  there, one step per retained element; and the result is the result on the retained
  elements alone. On a list that holds an int of magnitude \<open>2 ^ 1024 - 2 ^ 970\<close> or
  more, \<^verbatim>\<open>float\<close> raises \<^verbatim>\<open>OverflowError\<close> and so does the function. On a
  list of floats the result is that of the function on floats.
\<close>

theorem no_error_within_float_range:
  "((\<forall>v \<in> set rs. case v of PyFloat d \<Rightarrow> True | PyInt n \<Rightarrow> \<bar>n\<bar> < 2 ^ 1024 - 2 ^ 970) \<longrightarrow>
      (\<exists>final steps.
         va_combined_rating_detailed_num rs = Inr (final, steps)
         \<and> mset (map rating steps)
             = filter_mset (\<lambda>r. 0 < r \<and> r \<le> 100) (mset (map float_value rs))
         \<and> length steps
             = length (filter (\<lambda>v. 0 < float_value v \<and> float_value v \<le> 100) rs)
         \<and> va_combined_rating_detailed_num
               (filter (\<lambda>v. 0 < float_value v \<and> float_value v \<le> 100) rs)
             = Inr (final, steps)))
   \<and> ((\<exists>v \<in> set rs. case v of PyFloat d \<Rightarrow> False | PyInt n \<Rightarrow> 2 ^ 1024 - 2 ^ 970 \<le> \<bar>n\<bar>) \<longrightarrow>
        va_combined_rating_detailed_num rs = Inl OverflowError)
   \<and> va_combined_rating_detailed_num (map PyFloat ds) = Inr (va_combined_rating_detailed ds)"
proof (intro conjI impI)
  let ?P = "\<lambda>r::real. 0 < r \<and> r \<le> 100"
  let ?Q = "\<lambda>v. 0 < float_value v \<and> float_value v \<le> 100"
  let ?xs = "map float_value rs"
  assume "\<forall>v \<in> set rs. case v of PyFloat d \<Rightarrow> True | PyInt n \<Rightarrow> \<bar>n\<bar> < 2 ^ 1024 - 2 ^ 970"
  then have ok: "\<forall>v \<in> set rs. py_float v = Inr (float_value v)"
    using py_float_ok by blast
  then have ok': "\<forall>v \<in> set (filter ?Q rs). py_float v = Inr (float_value v)"
    by simp
  have fm: "map float_value (filter ?Q rs) = filter ?P ?xs"
    by (simp add: filter_map comp_def)
  have res: "va_combined_rating_detailed_num rs = Inr (va_combined_rating_detailed ?xs)"
    by (rule va_num_ok [OF ok])
  have m: "mset (map rating (snd (va_combined_rating_detailed ?xs)))
             = filter_mset ?P (mset ?xs)"
    by (simp only: va_unfold snd_conv map_rating_trace_from mset_clean_ratings)
  have "length (snd (va_combined_rating_detailed ?xs)) = length (filter ?P ?xs)"
    by (simp add: va_unfold length_trace_from clean_ratings_def)
  also have "\<dots> = length (filter ?Q rs)"
    by (simp only: fm [symmetric] length_map)
  finally have l: "length (snd (va_combined_rating_detailed ?xs)) = length (filter ?Q rs)" .
  have "va_combined_rating_detailed_num (filter ?Q rs)
          = Inr (va_combined_rating_detailed (filter ?P ?xs))"
    using va_num_ok [OF ok'] by (simp only: fm)
  also have "va_combined_rating_detailed (filter ?P ?xs) = va_combined_rating_detailed ?xs"
    by (simp only: va_unfold clean_ratings_filter)
  finally have f: "va_combined_rating_detailed_num (filter ?Q rs)
                     = Inr (va_combined_rating_detailed ?xs)" .
  show "\<exists>final steps.
          va_combined_rating_detailed_num rs = Inr (final, steps)
          \<and> mset (map rating steps) = filter_mset ?P (mset ?xs)
          \<and> length steps = length (filter ?Q rs)
          \<and> va_combined_rating_detailed_num (filter ?Q rs) = Inr (final, steps)"
  proof (intro exI conjI)
    show "va_combined_rating_detailed_num rs
            = Inr (fst (va_combined_rating_detailed ?xs), snd (va_combined_rating_detailed ?xs))"
      using res by simp
    show "mset (map rating (snd (va_combined_rating_detailed ?xs))) = filter_mset ?P (mset ?xs)"
      by (rule m)
    show "length (snd (va_combined_rating_detailed ?xs)) = length (filter ?Q rs)"
      by (rule l)
    show "va_combined_rating_detailed_num (filter ?Q rs)
            = Inr (fst (va_combined_rating_detailed ?xs), snd (va_combined_rating_detailed ?xs))"
      using f by simp
  qed
next
  assume "\<exists>v \<in> set rs. case v of PyFloat d \<Rightarrow> False | PyInt n \<Rightarrow> 2 ^ 1024 - 2 ^ 970 \<le> \<bar>n\<bar>"
  then have "\<exists>v \<in> set rs. py_float v = Inl OverflowError"
    using py_float_overflow by blast
  then show "va_combined_rating_detailed_num rs = Inl OverflowError"
    by (rule va_num_error)
next
  have "\<forall>v \<in> set (map PyFloat ds). py_float v = Inr (float_value v)" by auto
  from va_num_ok [OF this]
  show "va_combined_rating_detailed_num (map PyFloat ds) = Inr (va_combined_rating_detailed ds)"
    by (simp add: comp_def)
qed

theorem no_error_within_float_range_witness:
  "(\<exists>final steps.
      va_combined_rating_detailed_num [PyInt 30, PyFloat 250, PyInt 50, PyInt (- 3)]
        = Inr (final, steps)
      \<and> length steps = 2)
   \<and> va_combined_rating_detailed_num [PyFloat 5, PyInt (2 ^ 1024)] = Inl OverflowError"
proof -
  let ?rs = "[PyInt 30, PyFloat 250, PyInt 50, PyInt (- 3)]"
  let ?Q = "\<lambda>v. 0 < float_value v \<and> float_value v \<le> 100"
  have h1: "\<forall>v \<in> set ?rs. case v of PyFloat d \<Rightarrow> True | PyInt n \<Rightarrow> \<bar>n\<bar> < 2 ^ 1024 - 2 ^ 970"
    by simp
  have len: "length (filter ?Q ?rs) = 2"
    by code_simp
  have h2: "\<exists>v \<in> set [PyFloat 5, PyInt (2 ^ 1024)].
              case v of PyFloat d \<Rightarrow> False | PyInt n \<Rightarrow> 2 ^ 1024 - 2 ^ 970 \<le> \<bar>n\<bar>"
    by simp
  from no_error_within_float_range [of ?rs "[]"] h1
  obtain final steps
    where r: "va_combined_rating_detailed_num ?rs = Inr (final, steps)"
      and l: "length steps = length (filter ?Q ?rs)"
    by blast
  from l len have "length steps = 2" by (simp only:)
  with r have "\<exists>final steps. va_combined_rating_detailed_num ?rs = Inr (final, steps)
                 \<and> length steps = 2"
    by blast
  moreover from no_error_within_float_range [of "[PyFloat 5, PyInt (2 ^ 1024)]" "[]"] h2
  have "va_combined_rating_detailed_num [PyFloat 5, PyInt (2 ^ 1024)] = Inl OverflowError"
    by blast
  ultimately show ?thesis by blast
qed

text \<open>
  C7 as stated fails: the list that holds the single integer \<open>10 ^ 400\<close> is a list of
  real numbers, and on it the function raises \<^verbatim>\<open>OverflowError\<close>.
\<close>

theorem int_beyond_float_range_counterexample:
  "va_combined_rating_detailed_num [PyInt (10 ^ 400)] = Inl OverflowError"
proof -
  have "(2 :: int) ^ 1024 - 2 ^ 970 \<le> \<bar>10 ^ 400\<bar>" by simp
  then have "py_float (PyInt (10 ^ 400)) = Inl OverflowError"
    by (intro py_float_overflow) (simp only: py_number.case)
  then have "\<exists>v \<in> set [PyInt (10 ^ 400)]. py_float v = Inl OverflowError" by simp
  then show ?thesis by (rule va_num_error)
qed

text \<open>
  C8. Every step of every returned trace has \<open>combined_after_round\<close> between 0 and
  100. The loop itself keeps the bound: the total it returns is already between 0 and
  100, so the clamp after it changes nothing.
\<close>

theorem after_round_in_range:
  "(\<forall>s \<in> set (snd (va_combined_rating_detailed rs)).
      0 \<le> combined_after_round s \<and> combined_after_round s \<le> 100)
   \<and> 0 \<le> fst (combine_loop 0 [] (clean_ratings rs))
   \<and> fst (combine_loop 0 [] (clean_ratings rs)) \<le> 100"
proof (intro conjI ballI)
  fix s assume "s \<in> set (snd (va_combined_rating_detailed rs))"
  then have s: "s \<in> set (trace_from 0 (clean_ratings rs))" by (simp add: va_unfold)
  from trace_from_bounds [OF _ _ valid_clean_ratings s]
  show "0 \<le> combined_after_round s" and "combined_after_round s \<le> 100" by simp_all
next
  from total_from_bounds [OF _ _ valid_clean_ratings, of 0 rs]
  show "0 \<le> fst (combine_loop 0 [] (clean_ratings rs))"
    and "fst (combine_loop 0 [] (clean_ratings rs)) \<le> 100"
    by (simp_all add: combine_loop_eq)
qed

theorem after_round_in_range_witness:
  "\<lparr> rating = 10, remaining_before = 35, added = 7 / 2,
      combined_before_round = 137 / 2, combined_after_round = 68 \<rparr>
     \<in> set (snd (va_combined_rating_detailed [50, 30, 10]))
   \<and> (0 :: int) \<le> 68 \<and> (68 :: int) \<le> 100"
proof -
  let ?s = "\<lparr> rating = 10, remaining_before = 35, added = 7 / 2,
               combined_before_round = 137 / 2, combined_after_round = 68 \<rparr>"
  have mem: "?s \<in> set (snd (va_combined_rating_detailed [50, 30, 10]))"
    by (simp add: run_50_30_10)
  from after_round_in_range [of "[50, 30, 10]"] mem
  have "0 \<le> combined_after_round ?s \<and> combined_after_round ?s \<le> 100"
    by blast
  with mem show ?thesis by simp
qed

text \<open>
  C9. Along every returned trace the values of \<open>combined_after_round\<close> never
  decrease, and the values of \<open>remaining_before\<close> never increase.
\<close>

theorem after_round_nondecreasing:
  "sorted (map combined_after_round (snd (va_combined_rating_detailed rs)))
   \<and> sorted_wrt (\<ge>) (map remaining_before (snd (va_combined_rating_detailed rs)))"
proof
  from sorted_after_round_trace_from [OF _ _ valid_clean_ratings, of 0 rs]
  show "sorted (map combined_after_round (snd (va_combined_rating_detailed rs)))"
    by (simp add: va_unfold)
  from sorted_remaining_trace_from [OF _ _ valid_clean_ratings, of 0 rs]
  show "sorted_wrt (\<ge>) (map remaining_before (snd (va_combined_rating_detailed rs)))"
    by (simp add: va_unfold)
qed



end
